theory Spec2Isabelle
  imports Main "HOL-Library.Char_ord" "HOL-Library.Sublist"
begin

section \<open>frnm: renaming files and directories to conventional names\<close>

text \<open>
  The development embeds \<^verbatim>\<open>src/frnm.py\<close>. A Python string is a \<^typ>\<open>string\<close>; its
  characters are the code points below 256. A canonical absolute path, the result of
  \<^verbatim>\<open>os.path.realpath\<close>, is the list of its components from the root: \<^verbatim>\<open>/a/b\<close> is
  \<open>[''a'', ''b'']\<close> and \<^verbatim>\<open>/\<close> is \<open>[]\<close>. The file system is a tree without symbolic
  links, so that \<^verbatim>\<open>os.path.realpath\<close> changes no path of the model.
\<close>

subsection \<open>The file system\<close>

type_synonym path = "string list"

datatype node = File | Other | Dir "(string \<times> node) list"

text \<open>
  \<open>File\<close> is a regular file, \<open>Dir\<close> a directory with its entries in the order in which
  the system lists them, \<open>Other\<close> an entry that is neither (a socket, a device, a pipe).
\<close>

fun lookup :: "node \<Rightarrow> path \<Rightarrow> node option" where
  "lookup n [] = Some n"
| "lookup n (x # p) =
     (case n of
        Dir es \<Rightarrow> (case map_of es x of None \<Rightarrow> None | Some m \<Rightarrow> lookup m p)
      | _ \<Rightarrow> None)"

definition os_path_exists :: "node \<Rightarrow> path \<Rightarrow> bool" where
  "os_path_exists root p \<longleftrightarrow> lookup root p \<noteq> None"

definition os_path_isfile :: "node \<Rightarrow> path \<Rightarrow> bool" where
  "os_path_isfile root p \<longleftrightarrow> lookup root p = Some File"

definition os_path_isdir :: "node \<Rightarrow> path \<Rightarrow> bool" where
  "os_path_isdir root p \<longleftrightarrow> (case lookup root p of Some (Dir es) \<Rightarrow> True | _ \<Rightarrow> False)"

text \<open>
  \<^verbatim>\<open>os.path.split\<close> cuts a path at its last separator: the parent and the basename.
  For the root it returns \<^verbatim>\<open>("/", "")\<close>.
\<close>

definition os_path_split :: "path \<Rightarrow> path \<times> string" where
  "os_path_split p = (if p = [] then ([], []) else (butlast p, last p))"

definition os_path_join :: "path \<Rightarrow> string \<Rightarrow> path" where
  "os_path_join d name = d @ [name]"

subsection \<open>Strings\<close>

text \<open>
  \<^verbatim>\<open>EXCLUDED_CHARS = re.compile(r"[^-._0-9a-zA-Z]")\<close>: one character outside the class.
\<close>

definition EXCLUDED_CHARS :: "char \<Rightarrow> bool" where
  "EXCLUDED_CHARS x \<longleftrightarrow>
     \<not> (x = CHR ''-'' \<or> x = CHR ''.'' \<or> x = CHR ''_'' \<or>
        (CHR ''0'' \<le> x \<and> x \<le> CHR ''9'') \<or>
        (CHR ''a'' \<le> x \<and> x \<le> CHR ''z'') \<or>
        (CHR ''A'' \<le> x \<and> x \<le> CHR ''Z''))"

text \<open>
  \<^verbatim>\<open>EXCLUDED_CHARS.sub(char, s)\<close> with a replacement of one character: every match, which
  is one character long, becomes one copy of the replacement.
\<close>

definition re_sub :: "char \<Rightarrow> string \<Rightarrow> string" where
  "re_sub c s = map (\<lambda>x. if EXCLUDED_CHARS x then c else x) s"

text \<open>\<^verbatim>\<open>s.strip(char)\<close>, \<^verbatim>\<open>s.split(char)\<close> and \<^verbatim>\<open>char.join(parts)\<close> for a one-character \<^verbatim>\<open>char\<close>.\<close>

definition strip :: "char \<Rightarrow> string \<Rightarrow> string" where
  "strip c s = rev (dropWhile (\<lambda>x. x = c) (rev (dropWhile (\<lambda>x. x = c) s)))"

fun split :: "char \<Rightarrow> string \<Rightarrow> string list" where
  "split c [] = [[]]"
| "split c (x # xs) =
     (if x = c then [] # split c xs
      else (x # hd (split c xs)) # tl (split c xs))"

fun join :: "char \<Rightarrow> string list \<Rightarrow> string" where
  "join c [] = []"
| "join c [w] = w"
| "join c (w # v # ws) = w @ c # join c (v # ws)"

text \<open>
  \<^verbatim>\<open>os.path.splitext\<close> on a basename, which holds no separator: the extension starts at
  the last period, unless only periods come before it; then there is no extension.
\<close>

definition splitext :: "string \<Rightarrow> string \<times> string" where
  "splitext p =
     (case dropWhile (\<lambda>x. x \<noteq> CHR ''.'') (rev p) of
        [] \<Rightarrow> (p, [])
      | d # r \<Rightarrow>
          if \<forall>x \<in> set r. x = CHR ''.'' then (p, [])
          else (rev r, d # rev (takeWhile (\<lambda>x. x \<noteq> CHR ''.'') (rev p))))"

subsection \<open>The name generator\<close>

definition generate_new_pathname :: "node \<Rightarrow> path \<Rightarrow> char \<Rightarrow> string" where
  "generate_new_pathname root file_path c =
     (let old_name = snd (os_path_split file_path) in
      if os_path_isfile root file_path then
        (let (root_part, extension) = splitext old_name;
             new_root = strip c (re_sub c root_part);
             name_components = split c new_root;
             name_components = filter (\<lambda>component. component \<noteq> []) name_components
         in if length name_components < 2 then old_name
            else join c name_components @ extension)
      else
        (let new_name = strip c (re_sub c old_name);
             name_components = split c new_name;
             name_components = filter (\<lambda>component. component \<noteq> []) name_components
         in if length name_components < 2 then old_name
            else join c name_components))"

text \<open>
  The names the properties below use: the part of a basename that is sanitized (the root
  of a file, the whole name of a directory), and the components that lines 34 to 39 (and
  45 to 50) of the source compute from it.
\<close>

definition sanitized_portion :: "bool \<Rightarrow> string \<Rightarrow> string" where
  "sanitized_portion is_file name = (if is_file then fst (splitext name) else name)"

definition components :: "char \<Rightarrow> string \<Rightarrow> string list" where
  "components c s = filter (\<lambda>component. component \<noteq> []) (split c (strip c (re_sub c s)))"

subsection \<open>Notions for the properties\<close>

text \<open>
  The non-empty parts of a split string; two substitution characters in a row; a leading
  and a trailing one; a sanitized string; a string made of one character only. The
  generator itself is \<open>candidate_name\<close> once the entry is classified and its basename is
  taken.
\<close>

definition parts :: "char \<Rightarrow> string \<Rightarrow> string list" where
  "parts c s = filter (\<lambda>w. w \<noteq> []) (split c s)"

fun consecutive :: "char \<Rightarrow> string \<Rightarrow> bool" where
  "consecutive c [] = False"
| "consecutive c [x] = False"
| "consecutive c (x # y # s) = ((x = c \<and> y = c) \<or> consecutive c (y # s))"

definition good_words :: "char \<Rightarrow> string list \<Rightarrow> bool" where
  "good_words c ws \<longleftrightarrow> (\<forall>w \<in> set ws. w \<noteq> [] \<and> c \<notin> set w)"

definition dots_lead :: "string \<Rightarrow> bool" where
  "dots_lead s \<longleftrightarrow> sorted_wrt (\<lambda>a b. b = CHR ''.'' \<longrightarrow> a = CHR ''.'') s"

definition candidate_name :: "bool \<Rightarrow> string \<Rightarrow> char \<Rightarrow> string" where
  "candidate_name is_file old_name c =
     (if is_file then
        (case splitext old_name of (root_part, extension) \<Rightarrow>
           if length (components c root_part) < 2 then old_name
           else join c (components c root_part) @ extension)
      else
        (if length (components c old_name) < 2 then old_name
         else join c (components c old_name)))"

definition word_chars_ok :: "string list \<Rightarrow> bool" where
  "word_chars_ok ws \<longleftrightarrow> (\<forall>w \<in> set ws. \<forall>x \<in> set w. \<not> EXCLUDED_CHARS x)"

definition leading :: "char \<Rightarrow> string \<Rightarrow> bool" where
  "leading c s = (case s of [] \<Rightarrow> False | x # _ \<Rightarrow> x = c)"

definition trailing :: "char \<Rightarrow> string \<Rightarrow> bool" where
  "trailing c s = (s \<noteq> [] \<and> last s = c)"

definition sanitized :: "char \<Rightarrow> string \<Rightarrow> bool" where
  "sanitized c s \<longleftrightarrow>
     list_all (\<lambda>x. \<not> EXCLUDED_CHARS x) s \<and> \<not> leading c s \<and> \<not> trailing c s \<and> \<not> consecutive c s"

definition all_char :: "char \<Rightarrow> string \<Rightarrow> bool" where
  "all_char c s \<longleftrightarrow> s \<noteq> [] \<and> list_all (\<lambda>x. x = c) s"

text \<open>
  The description of the generator in the specification: every maximal run of disallowed
  characters is replaced by one substitution character (\<open>sub_runs\<close>), the result is
  trimmed, split into its non-empty components, and rejoined when there are at least two
  of them, the extension of a file being kept apart. This definition follows the words
  of the specification; \<open>generate_new_pathname\<close> above follows the code.
\<close>

function sub_runs :: "char \<Rightarrow> string \<Rightarrow> string" where
  "sub_runs c [] = []"
| "sub_runs c (x # xs) =
     (if EXCLUDED_CHARS x then c # sub_runs c (dropWhile EXCLUDED_CHARS xs)
      else x # sub_runs c xs)"
  by pat_completeness auto
termination
  by (relation "measure (\<lambda>(c, s). length s)") (auto simp: length_dropWhile_le less_Suc_eq_le)

definition spec_candidate :: "bool \<Rightarrow> string \<Rightarrow> char \<Rightarrow> string" where
  "spec_candidate is_file basename c =
     (let (root_part, extension) = (if is_file then splitext basename else (basename, []));
          trimmed = strip c (sub_runs c root_part);
          comps = filter (\<lambda>w. w \<noteq> []) (split c trimmed)
      in if length comps < 2 then basename else join c comps @ extension)"

subsection \<open>The traversal and rename engine\<close>

text \<open>
  The exceptions the code raises, with their messages, and the ways a call ends: it
  returns, it raises, or \<^verbatim>\<open>sys.exit\<close> ends the process with a status.
\<close>

datatype error =
    ValueError string
  | FileNotFoundError path
  | NotADirectoryError path
  | FileRenameError string

datatype outcome = Returned | Raised error | Exited nat

text \<open>
  The state is the tree, the lines printed so far and the file-system calls made so far,
  one entry for each call of \<^verbatim>\<open>os.path.realpath\<close>, \<^verbatim>\<open>os.path.exists\<close>,
  \<^verbatim>\<open>os.path.isfile\<close>, \<^verbatim>\<open>os.path.isdir\<close>, \<^verbatim>\<open>os.listdir\<close>, \<^verbatim>\<open>os.walk\<close> and
  \<^verbatim>\<open>os.replace\<close> in the source.
\<close>

datatype fsop =
    Realpath path | Exists path | IsFile path | IsDir path
  | ListDir path | Walk path | Replace path path

record state =
  tree :: node
  stdout :: "string list"
  calls :: "fsop list"

definition called :: "fsop \<Rightarrow> state \<Rightarrow> state" where
  "called e st = st\<lparr>calls := calls st @ [e]\<rparr>"

text \<open>\<^verbatim>\<open>os.listdir\<close> of a path, and \<^verbatim>\<open>list.remove\<close>, which raises when the element is absent.\<close>

definition os_listdir :: "node \<Rightarrow> path \<Rightarrow> error + string list" where
  "os_listdir root d =
     (case lookup root d of
        None \<Rightarrow> Inl (FileNotFoundError d)
      | Some (Dir es) \<Rightarrow> Inr (map fst es)
      | Some _ \<Rightarrow> Inl (NotADirectoryError d))"

definition list_remove :: "string \<Rightarrow> string list \<Rightarrow> error + string list" where
  "list_remove x xs =
     (if x \<in> set xs then Inr (remove1 x xs)
      else Inl (ValueError ''list.remove(x): x not in list''))"

text \<open>
  \<^verbatim>\<open>os.replace(src, dest)\<close> for two names in one directory: an entry that bears the
  destination name is overwritten, and the source entry takes that name.
\<close>

definition replace_entry :: "string \<Rightarrow> string \<Rightarrow> (string \<times> node) list \<Rightarrow> (string \<times> node) list" where
  "replace_entry old new es =
     (if old = new then es
      else map (\<lambda>(k, v). if k = old then (new, v) else (k, v)) (filter (\<lambda>(k, v). k \<noteq> new) es))"

fun update_dir :: "path \<Rightarrow> ((string \<times> node) list \<Rightarrow> (string \<times> node) list) \<Rightarrow> node \<Rightarrow> node" where
  "update_dir [] f n = (case n of Dir es \<Rightarrow> Dir (f es) | _ \<Rightarrow> n)"
| "update_dir (x # p) f n =
     (case n of
        Dir es \<Rightarrow> Dir (map (\<lambda>(k, v). if k = x then (k, update_dir p f v) else (k, v)) es)
      | _ \<Rightarrow> n)"

definition os_replace :: "node \<Rightarrow> path \<Rightarrow> string \<Rightarrow> string \<Rightarrow> node" where
  "os_replace root dirname old new = update_dir dirname (replace_entry old new) root"

text \<open>A path as the string the code prints.\<close>

definition path_str :: "path \<Rightarrow> string" where
  "path_str p = (if p = [] then ''/'' else concat (map (\<lambda>name. ''/'' @ name) p))"

definition sanitize_file_name :: "state \<Rightarrow> path \<Rightarrow> char \<Rightarrow> bool \<Rightarrow> bool \<Rightarrow> outcome \<times> state" where
  "sanitize_file_name st file_path c verbose suppress_errors =
     (let (dirname, old_name) = os_path_split file_path;
          st1 = called (IsFile file_path) st;
          new_name = generate_new_pathname (tree st1) file_path c;
          st2 = called (ListDir dirname) st1
      in case os_listdir (tree st2) dirname of
           Inl e \<Rightarrow> (Raised e, st2)
         | Inr listing \<Rightarrow>
             (case list_remove old_name listing of
                Inl e \<Rightarrow> (Raised e, st2)
              | Inr siblings \<Rightarrow>
                  if new_name \<in> set siblings then
                    (if \<not> suppress_errors
                     then (Raised (FileRenameError (''File '' @ new_name @ '' already exists.'')), st2)
                     else (Returned, st2))
                  else if new_name \<noteq> old_name then
                    (let src = os_path_join dirname old_name;
                         dest = os_path_join dirname new_name;
                         st3 = (called (Replace src dest) st2)
                                 \<lparr>tree := os_replace (tree st2) dirname old_name new_name\<rparr>
                     in (Returned,
                         if verbose
                         then st3\<lparr>stdout := stdout st3 @ [path_str src @ '' ===> '' @ path_str dest]\<rparr>
                         else st3))
                  else (Returned, st2)))"

text \<open>
  \<^verbatim>\<open>os.walk(directory, topdown=False)\<close>: the triples of the directories below a
  directory are produced before its own triple, which holds its path, its sub-directories
  and its other entries. \<open>collect\<close> is the loop of \<^verbatim>\<open>get_children\<close> over these triples: the
  files of a triple, then its sub-directories.
\<close>

definition is_dir_entry :: "string \<times> node \<Rightarrow> bool" where
  "is_dir_entry e = (case snd e of Dir _ \<Rightarrow> True | _ \<Rightarrow> False)"

fun walk :: "path \<Rightarrow> node \<Rightarrow> (path \<times> string list \<times> string list) list"
and walk_entries :: "path \<Rightarrow> (string \<times> node) list \<Rightarrow> (path \<times> string list \<times> string list) list"
where
  "walk dirpath (Dir es) =
     walk_entries dirpath es @
     [(dirpath, map fst (filter is_dir_entry es), map fst (filter (\<lambda>e. \<not> is_dir_entry e) es))]"
| "walk dirpath File = []"
| "walk dirpath Other = []"
| "walk_entries dirpath [] = []"
| "walk_entries dirpath ((name, n) # es) =
     (case n of Dir _ \<Rightarrow> walk (os_path_join dirpath name) n | _ \<Rightarrow> []) @ walk_entries dirpath es"

definition os_walk :: "node \<Rightarrow> path \<Rightarrow> (path \<times> string list \<times> string list) list" where
  "os_walk root directory = (case lookup root directory of None \<Rightarrow> [] | Some n \<Rightarrow> walk directory n)"

fun collect :: "(path \<times> string list \<times> string list) list \<Rightarrow> path list" where
  "collect [] = []"
| "collect ((dirpath, subFolders, filenames) # rest) =
     map (os_path_join dirpath) filenames @ map (os_path_join dirpath) subFolders @ collect rest"

definition get_children :: "node \<Rightarrow> path \<Rightarrow> path list" where
  "get_children root directory = collect (os_walk root directory)"

text \<open>
  The loops of \<^verbatim>\<open>rename_file\<close>: over the children of a directory, over the resolved
  paths, and over the paths whose existence is checked. A raise or an exit ends a loop.
\<close>

fun sanitize_each :: "state \<Rightarrow> path list \<Rightarrow> char \<Rightarrow> bool \<Rightarrow> bool \<Rightarrow> outcome \<times> state" where
  "sanitize_each st [] c verbose suppress_errors = (Returned, st)"
| "sanitize_each st (child # children) c verbose suppress_errors =
     (case sanitize_file_name st child c verbose suppress_errors of
        (Returned, st') \<Rightarrow> sanitize_each st' children c verbose suppress_errors
      | (stop, st') \<Rightarrow> (stop, st'))"

definition rename_path :: "state \<Rightarrow> path \<Rightarrow> char \<Rightarrow> bool \<Rightarrow> bool \<Rightarrow> bool \<Rightarrow> outcome \<times> state" where
  "rename_path st p c recursive verbose suppress_errors =
     (let st1 = called (IsFile p) st in
      if os_path_isfile (tree st1) p then sanitize_file_name st1 p c verbose suppress_errors
      else
        (let st2 = called (IsDir p) st1 in
         if os_path_isdir (tree st2) p then
           (if recursive then
              (let st3 = called (Walk p) st2;
                   children = get_children (tree st3) p
               in case sanitize_each st3 children c verbose suppress_errors of
                    (Returned, st4) \<Rightarrow> sanitize_file_name st4 p c verbose suppress_errors
                  | (stop, st4) \<Rightarrow> (stop, st4))
            else sanitize_file_name st2 p c verbose suppress_errors)
         else (Returned, st2)))"

fun rename_paths :: "state \<Rightarrow> path list \<Rightarrow> char \<Rightarrow> bool \<Rightarrow> bool \<Rightarrow> bool \<Rightarrow> outcome \<times> state" where
  "rename_paths st [] c recursive verbose suppress_errors = (Returned, st)"
| "rename_paths st (p # ps) c recursive verbose suppress_errors =
     (case rename_path st p c recursive verbose suppress_errors of
        (Returned, st') \<Rightarrow> rename_paths st' ps c recursive verbose suppress_errors
      | (stop, st') \<Rightarrow> (stop, st'))"

fun check_exists :: "state \<Rightarrow> path list \<Rightarrow> path option \<times> state" where
  "check_exists st [] = (None, st)"
| "check_exists st (p # ps) =
     (let st1 = called (Exists p) st in
      if \<not> os_path_exists (tree st1) p then (Some p, st1) else check_exists st1 ps)"

definition rename_file :: "state \<Rightarrow> string \<Rightarrow> path list \<Rightarrow> bool \<Rightarrow> bool \<Rightarrow> bool \<Rightarrow> outcome \<times> state" where
  "rename_file st char files recursive verbose suppress_errors =
     (if length char \<noteq> 1 then
        (if \<not> suppress_errors
         then (Raised (ValueError (char @ '' must be a single character.'')), st)
         else (Exited 1, st))
      else if EXCLUDED_CHARS (hd char) then
        (if \<not> suppress_errors
         then (Raised (ValueError (''Special character '' @ char @
                 '' cannot be used as a replacement character.'' @ [CHR 0x0A] @
                 ''Allowed replacement characters include -._0-9a-zA-Z'')), st)
         else (Exited 1, st))
      else
        (let st1 = fold (\<lambda>file. called (Realpath file)) files st;
             resolved_paths = files
         in case check_exists st1 resolved_paths of
              (Some path, st2) \<Rightarrow>
                (if \<not> suppress_errors then (Raised (FileNotFoundError path), st2)
                 else (Exited 1, st2))
            | (None, st2) \<Rightarrow>
                rename_paths st2 resolved_paths (hd char) recursive verbose suppress_errors))"




text \<open>A tree and a state for the examples.\<close>

definition example_tree :: node where
  "example_tree =
     Dir [(''home'', Dir [
       (''my file (2023).txt'', File),
       (''***.txt'', File),
       (''a_b_.txt'', File),
       (''_.txt'', File),
       (''a 1.txt'', File),
       (''a_1.txt'', File),
       (''Parent Dir'', Dir [(''Child File.txt'', File), (''Sub Dir'', Dir [(''x y'', File)])])])]"

definition example_state :: state where
  "example_state = \<lparr>tree = example_tree, stdout = [], calls = []\<rparr>"

section \<open>Strings: splitting, joining, trimming\<close>

lemma split_not_Nil [simp]: "split c s \<noteq> []"
  by (induction s) auto

lemma split_append_sep: "split c (xs @ c # ys) = split c xs @ split c ys"
  by (induction xs) (auto simp: hd_append)

lemma split_no_sep: "c \<notin> set s \<Longrightarrow> split c s = [s]"
  by (induction s) auto

lemma in_split_no_sep: "w \<in> set (split c s) \<Longrightarrow> c \<notin> set w"
proof (induction s arbitrary: w)
  case Nil
  then show ?case by simp
next
  case (Cons x s)
  show ?case
  proof (cases "x = c")
    case True
    with Cons show ?thesis by auto
  next
    case False
    obtain v vs where vs: "split c s = v # vs"
      by (cases "split c s") auto
    with Cons False show ?thesis by auto
  qed
qed

lemma in_split_subset: "w \<in> set (split c s) \<Longrightarrow> set w \<subseteq> set s"
proof (induction s arbitrary: w)
  case Nil
  then show ?case by simp
next
  case (Cons x s)
  obtain v vs where vs: "split c s = v # vs"
    by (cases "split c s") auto
  show ?case
  proof (cases "x = c")
    case True
    with Cons show ?thesis by auto
  next
    case False
    with vs Cons.prems have "w = x # v \<or> w \<in> set vs" by auto
    moreover have "set v \<subseteq> set s" using Cons.IH vs by simp
    moreover have "w \<in> set vs \<Longrightarrow> set w \<subseteq> set s" using Cons.IH vs by simp
    ultimately show ?thesis by auto
  qed
qed

lemma join_Cons: "ws \<noteq> [] \<Longrightarrow> join c (w # ws) = w @ c # join c ws"
  by (cases ws) auto

lemma join_split: "join c (split c s) = s"
proof (induction s)
  case Nil
  then show ?case by simp
next
  case (Cons x s)
  obtain v vs where vs: "split c s = v # vs"
    by (cases "split c s") auto
  with Cons show ?case 
    by (cases vs) (auto simp: join_Cons)
qed

lemma split_join:
  "ws \<noteq> [] \<Longrightarrow> \<forall>w \<in> set ws. c \<notin> set w \<Longrightarrow> split c (join c ws) = ws"
proof (induction c ws rule: join.induct)
  case (1 c)
  then show ?case by simp
next
  case (2 c w)
  then show ?case by (simp add: split_no_sep)
next
  case (3 c w v ws)
  then show ?case by (simp add: split_append_sep split_no_sep)
qed

lemma parts_append_sep: "parts c (xs @ c # ys) = parts c xs @ parts c ys"
  by (simp add: parts_def split_append_sep)

lemma parts_replicate: "parts c (replicate k c) = []"
  by (induction k) (auto simp: parts_def)

lemma parts_sep_Cons: "parts c (c # s) = parts c s"
  by (simp add: parts_def)

lemma parts_dropWhile: "parts c (dropWhile (\<lambda>x. x = c) s) = parts c s"
  by (induction s) (auto simp: parts_sep_Cons)

lemma parts_append_replicate: "parts c (s @ replicate k c) = parts c s"
proof (cases k)
  case 0
  then show ?thesis by simp
next
  case (Suc j)
  then show ?thesis
    by (simp add: parts_append_sep parts_replicate)
qed

lemma dropWhile_rev_decomp:
  "\<exists>k. s = rev (dropWhile (\<lambda>x. x = c) (rev s)) @ replicate k c"
proof -
  let ?t = "takeWhile (\<lambda>x. x = c) (rev s)"
  have "\<forall>y \<in> set ?t. y = c"
    by (auto dest: set_takeWhileD)
  then have t: "replicate (length ?t) c = ?t"
    by (rule replicate_length_same)
  have "rev s = ?t @ dropWhile (\<lambda>x. x = c) (rev s)"
    by simp
  then have "s = rev (dropWhile (\<lambda>x. x = c) (rev s)) @ rev ?t"
    by (metis rev_append rev_rev_ident)
  with t show ?thesis
    by (metis rev_replicate)
qed

lemma parts_dropWhile_rev: "parts c (rev (dropWhile (\<lambda>x. x = c) (rev s))) = parts c s"
proof -
  from dropWhile_rev_decomp [of s c]
  obtain k where k: "s = rev (dropWhile (\<lambda>x. x = c) (rev s)) @ replicate k c" ..
  have "parts c s = parts c (rev (dropWhile (\<lambda>x. x = c) (rev s)) @ replicate k c)"
    using k by simp
  then show ?thesis
    by (simp only: parts_append_replicate)
qed

lemma parts_strip: "parts c (strip c s) = parts c s"
  by (simp add: strip_def parts_dropWhile_rev parts_dropWhile)

lemma components_parts: "components c s = parts c (re_sub c s)"
  by (simp add: components_def parts_strip [unfolded parts_def] parts_def)

lemma in_parts: "w \<in> set (parts c s) \<Longrightarrow> w \<noteq> [] \<and> c \<notin> set w \<and> set w \<subseteq> set s"
  using in_split_no_sep in_split_subset by (fastforce simp: parts_def)

subsection \<open>Joined words\<close>

lemma good_words_parts: "good_words c (parts c s)"
  using in_parts by (auto simp: good_words_def)

lemma good_words_Cons: "good_words c (w # ws) \<longleftrightarrow> w \<noteq> [] \<and> c \<notin> set w \<and> good_words c ws"
  by (auto simp: good_words_def)

lemma good_words_butlast: "good_words c ws \<Longrightarrow> good_words c (butlast ws)"
  by (auto simp: good_words_def dest: in_set_butlastD)

lemma join_not_Nil: "good_words c ws \<Longrightarrow> ws \<noteq> [] \<Longrightarrow> join c ws \<noteq> []"
  by (induction c ws rule: join.induct) (auto simp: good_words_def)

lemma hd_join: "good_words c ws \<Longrightarrow> ws \<noteq> [] \<Longrightarrow> hd (join c ws) = hd (hd ws)"
  by (induction c ws rule: join.induct) (auto simp: good_words_def)

lemma hd_join_not_sep: "good_words c ws \<Longrightarrow> ws \<noteq> [] \<Longrightarrow> hd (join c ws) \<noteq> c"
  by (cases ws) (auto simp: hd_join good_words_def dest: hd_in_set)

lemma last_join: "good_words c ws \<Longrightarrow> ws \<noteq> [] \<Longrightarrow> last (join c ws) = last (last ws)"
proof (induction c ws rule: join.induct)
  case (3 c w v ws)
  then have "join c (v # ws) \<noteq> []"
    by (simp add: join_not_Nil good_words_Cons)
  with 3 show ?case by (simp add: good_words_Cons)
qed simp_all

lemma last_join_not_sep: "good_words c ws \<Longrightarrow> ws \<noteq> [] \<Longrightarrow> last (join c ws) \<noteq> c"
proof -
  assume g: "good_words c ws" and ne: "ws \<noteq> []"
  then have "last ws \<in> set ws" by simp
  with g have "last ws \<noteq> []" "c \<notin> set (last ws)"
    by (auto simp: good_words_def)
  then have "last (last ws) \<noteq> c"
    using last_in_set by metis
  with g ne show ?thesis by (simp add: last_join)
qed

lemma set_join: "set (join c ws) \<subseteq> insert c (\<Union> (set ` set ws))"
  by (induction c ws rule: join.induct) auto

lemma consecutive_append: "c \<notin> set w \<Longrightarrow> consecutive c (w @ t) = consecutive c t"
proof (induction w)
  case Nil
  then show ?case by simp
next
  case (Cons x w)
  then show ?case by (cases "w @ t") auto
qed

lemma consecutive_sep_Cons: "consecutive c (c # t) \<longleftrightarrow> (t \<noteq> [] \<and> hd t = c) \<or> consecutive c t"
  by (cases t) auto

lemma not_consecutive_join: "good_words c ws \<Longrightarrow> \<not> consecutive c (join c ws)"
proof (induction c ws rule: join.induct)
  case (1 c)
  then show ?case by simp
next
  case (2 c w)
  then show ?case
    using consecutive_append [of c w "[]"] by (simp add: good_words_def)
next
  case (3 c w v ws)
  then have g: "good_words c (v # ws)" and w: "c \<notin> set w"
    by (simp_all add: good_words_Cons)
  have "hd (join c (v # ws)) \<noteq> c"
    using g by (simp add: hd_join_not_sep)
  with 3 g w show ?case
    by (simp add: consecutive_append consecutive_sep_Cons)
qed

lemma consecutive_iff: "consecutive c s \<longleftrightarrow> (\<exists>xs ys. s = xs @ c # c # ys)"
proof (induction c s rule: consecutive.induct)
  case (1 c)
  then show ?case by simp
next
  case (2 c v)
  show ?case
  proof
    assume "consecutive c [v]"
    then show "\<exists>xs ys. [v] = xs @ c # c # ys" by simp
  next
    assume "\<exists>xs ys. [v] = xs @ c # c # ys"
    then obtain xs ys where "[v] = xs @ c # c # ys" by auto
    then have "length [v] = length (xs @ c # c # ys)" by simp
    then show "consecutive c [v]" by simp
  qed
next
  case (3 c x y s)
  show ?case
  proof
    assume "consecutive c (x # y # s)"
    then consider "x = c" "y = c" | "consecutive c (y # s)" by auto
    then show "\<exists>xs ys. x # y # s = xs @ c # c # ys"
    proof cases
      case 1
      then have "x # y # s = [] @ c # c # s" by simp
      then show ?thesis by blast
    next
      case 2
      with 3 obtain xs ys where "y # s = xs @ c # c # ys" by auto
      then have "x # y # s = (x # xs) @ c # c # ys" by simp
      then show ?thesis by blast
    qed
  next
    assume "\<exists>xs ys. x # y # s = xs @ c # c # ys"
    then obtain xs ys where e: "x # y # s = xs @ c # c # ys" by auto
    show "consecutive c (x # y # s)"
    proof (cases xs)
      case Nil
      with e show ?thesis by simp
    next
      case (Cons a as)
      with e have "y # s = as @ c # c # ys" by simp
      then have "\<exists>xs ys. y # s = xs @ c # c # ys" by blast
      with 3 have "consecutive c (y # s)" by simp
      then show ?thesis by simp
    qed
  qed
qed

subsection \<open>Substitution and trimming that change nothing\<close>

lemma re_sub_id: "\<forall>x \<in> set s. \<not> EXCLUDED_CHARS x \<or> x = c \<Longrightarrow> re_sub c s = s"
  by (induction s) (auto simp: re_sub_def)

lemma in_re_sub: "x \<in> set (re_sub c s) \<Longrightarrow> x = c \<or> \<not> EXCLUDED_CHARS x"
  by (auto simp: re_sub_def split: if_splits)

lemma dropWhile_rev_id: "s \<noteq> [] \<Longrightarrow> last s \<noteq> c \<Longrightarrow> dropWhile (\<lambda>x. x = c) (rev s) = rev s"
  by (cases s rule: rev_cases) auto

lemma strip_id: "s = [] \<or> (hd s \<noteq> c \<and> last s \<noteq> c) \<Longrightarrow> strip c s = s"
proof (cases s)
  case Nil
  then show ?thesis by (simp add: strip_def)
next
  case (Cons x xs)
  assume "s = [] \<or> (hd s \<noteq> c \<and> last s \<noteq> c)"
  with Cons have h: "x \<noteq> c" and l: "last (x # xs) \<noteq> c" by auto
  have "dropWhile (\<lambda>x. x = c) (rev (x # xs)) = rev (x # xs)"
    using l by (rule dropWhile_rev_id [rotated]) simp
  with Cons h show ?thesis by (simp add: strip_def)
qed

lemma in_components:
  "w \<in> set (components c s) \<Longrightarrow> w \<noteq> [] \<and> c \<notin> set w \<and> (\<forall>x \<in> set w. \<not> EXCLUDED_CHARS x)"
proof -
  assume "w \<in> set (components c s)"
  then have w: "w \<noteq> []" "c \<notin> set w" "set w \<subseteq> set (re_sub c s)"
    using in_parts [of w c "re_sub c s"] by (simp_all add: components_parts)
  then have "\<forall>x \<in> set w. \<not> EXCLUDED_CHARS x"
    using in_re_sub by blast
  with w show ?thesis by simp
qed

lemma good_words_components: "good_words c (components c s)"
  by (simp add: components_parts good_words_parts)

lemma join_components_chars:
  "x \<in> set (join c (components c s)) \<Longrightarrow> x = c \<or> \<not> EXCLUDED_CHARS x"
  using set_join [of c "components c s"] in_components by blast

lemma components_join:
  assumes "good_words c ws" and "\<forall>w \<in> set ws. \<forall>x \<in> set w. \<not> EXCLUDED_CHARS x"
  shows "components c (join c ws) = ws"
proof (cases "ws = []")
  case True
  then show ?thesis by (simp add: components_def re_sub_def strip_def)
next
  case False
  have "\<forall>x \<in> set (join c ws). \<not> EXCLUDED_CHARS x \<or> x = c"
    using set_join [of c ws] assms(2) by blast
  then have "re_sub c (join c ws) = join c ws" by (rule re_sub_id)
  moreover have "split c (join c ws) = ws"
    using False assms(1) by (simp add: split_join good_words_def)
  moreover have "filter (\<lambda>w. w \<noteq> []) ws = ws"
    using assms(1) by (simp add: good_words_def filter_id_conv)
  ultimately show ?thesis by (simp add: components_parts parts_def)
qed

lemma components_idem: "components c (join c (components c s)) = components c s"
  using components_join [of c "components c s"] good_words_components in_components by blast

subsection \<open>Extensions\<close>

lemma rev_decomp_dot:
  "dropWhile (\<lambda>x. x \<noteq> CHR ''.'') (rev p) = d # r \<Longrightarrow>
   d = CHR ''.'' \<and> p = rev r @ CHR ''.'' # rev (takeWhile (\<lambda>x. x \<noteq> CHR ''.'') (rev p))"
proof -
  assume a: "dropWhile (\<lambda>x. x \<noteq> CHR ''.'') (rev p) = d # r"
  then have d: "d = CHR ''.''"
    using hd_dropWhile [of "\<lambda>x. x \<noteq> CHR ''.''" "rev p"] by auto
  have "rev p = takeWhile (\<lambda>x. x \<noteq> CHR ''.'') (rev p) @ d # r"
    using a takeWhile_dropWhile_id [of "\<lambda>x. x \<noteq> CHR ''.''" "rev p"] by simp
  then have "rev (rev p) = rev (takeWhile (\<lambda>x. x \<noteq> CHR ''.'') (rev p) @ d # r)"
    by simp
  then have "p = rev r @ d # rev (takeWhile (\<lambda>x. x \<noteq> CHR ''.'') (rev p))"
    by simp
  with d show ?thesis by simp
qed

lemma splitext_append: "splitext p = (r, e) \<Longrightarrow> p = r @ e"
proof -
  assume a: "splitext p = (r, e)"
  show ?thesis
  proof (cases "dropWhile (\<lambda>x. x \<noteq> CHR ''.'') (rev p)")
    case Nil
    with a show ?thesis by (simp add: splitext_def)
  next
    case (Cons d q)
    from a Cons have "(r = p \<and> e = []) \<or>
        (r = rev q \<and> e = d # rev (takeWhile (\<lambda>x. x \<noteq> CHR ''.'') (rev p)))"
      by (auto simp: splitext_def split: if_splits)
    with rev_decomp_dot [OF Cons] show ?thesis
      by (elim disjE conjE) simp_all
  qed
qed

lemma splitext_ext:
  "splitext p = (r, e) \<Longrightarrow> e \<noteq> [] \<Longrightarrow>
   (\<exists>e'. e = CHR ''.'' # e' \<and> CHR ''.'' \<notin> set e') \<and> (\<exists>x \<in> set r. x \<noteq> CHR ''.'')"
proof -
  assume a: "splitext p = (r, e)" and e: "e \<noteq> []"
  show ?thesis
  proof (cases "dropWhile (\<lambda>x. x \<noteq> CHR ''.'') (rev p)")
    case Nil
    with a e show ?thesis by (simp add: splitext_def)
  next
    case (Cons d q)
    have "CHR ''.'' \<notin> set (takeWhile (\<lambda>x. x \<noteq> CHR ''.'') (rev p))"
      by (auto dest: set_takeWhileD)
    moreover from a e Cons have "r = rev q" "e = d # rev (takeWhile (\<lambda>x. x \<noteq> CHR ''.'') (rev p))"
      "\<not> (\<forall>x \<in> set q. x = CHR ''.'')"
      by (auto simp: splitext_def split: if_splits)
    moreover have "d = CHR ''.''"
      using rev_decomp_dot [OF Cons] by simp
    ultimately show ?thesis by auto
  qed
qed

lemma splitext_build:
  assumes "CHR ''.'' \<notin> set e" and "\<exists>x \<in> set r. x \<noteq> CHR ''.''"
  shows "splitext (r @ CHR ''.'' # e) = (r, CHR ''.'' # e)"
proof -
  have t: "takeWhile (\<lambda>x. x \<noteq> CHR ''.'') (rev e @ CHR ''.'' # rev r) = rev e"
    using assms(1) by (subst takeWhile_append2) auto
  have d: "dropWhile (\<lambda>x. x \<noteq> CHR ''.'') (rev e @ CHR ''.'' # rev r) = CHR ''.'' # rev r"
    using assms(1) by (subst dropWhile_append2) auto
  show ?thesis
    using assms(2) by (simp add: splitext_def t d)
qed

lemma splitext_dots_lead:
  assumes dl: "dots_lead p"
  shows "splitext p = (p, [])"
proof (cases "dropWhile (\<lambda>x. x \<noteq> CHR ''.'') (rev p)")
  case Nil
  show ?thesis unfolding splitext_def Nil by simp
next
  case (Cons d q)
  from rev_decomp_dot [OF Cons]
  obtain t where p: "p = rev q @ CHR ''.'' # t" by blast
  have "dots_lead (rev q @ CHR ''.'' # t)" using dl p by simp
  then have "\<forall>x \<in> set q. x = CHR ''.''"
    by (auto simp: dots_lead_def sorted_wrt_append)
  then show ?thesis unfolding splitext_def Cons by simp
qed

lemma dots_lead_no_dot: "CHR ''.'' \<notin> set t \<Longrightarrow> dots_lead t"
  unfolding dots_lead_def by (induction t) auto

lemma dots_lead_all_dots: "\<forall>x \<in> set t. x = CHR ''.'' \<Longrightarrow> dots_lead t"
  unfolding dots_lead_def by (induction t) auto

lemma no_ext_dots_lead:
  assumes a: "splitext p = (r, [])"
  shows "dots_lead p"
proof (cases "dropWhile (\<lambda>x. x \<noteq> CHR ''.'') (rev p)")
  case Nil
  then have "CHR ''.'' \<notin> set (rev p)"
    by (simp only: dropWhile_eq_Nil_conv) auto
  then show ?thesis by (simp add: dots_lead_no_dot)
next
  case (Cons d q)
  let ?t = "rev (takeWhile (\<lambda>x. x \<noteq> CHR ''.'') (rev p))"
  have nd: "CHR ''.'' \<notin> set ?t"
    by (auto dest: set_takeWhileD)
  from a have q: "\<forall>x \<in> set q. x = CHR ''.''"
    unfolding splitext_def Cons by (auto split: if_splits)
  from rev_decomp_dot [OF Cons]
  have p: "p = rev q @ CHR ''.'' # ?t" by simp
  have "dots_lead (rev q @ CHR ''.'' # ?t)"
    using q dots_lead_all_dots [of "rev q"] dots_lead_no_dot [OF nd] nd
    unfolding dots_lead_def sorted_wrt_append by auto
  with p show ?thesis by simp
qed

lemma dots_lead_subseq: "subseq xs ys \<Longrightarrow> dots_lead ys \<Longrightarrow> dots_lead xs"
  unfolding dots_lead_def
proof (induction rule: list_emb.induct)
  case (list_emb_Nil ys)
  then show ?case by simp
next
  case (list_emb_Cons xs ys y)
  then show ?case by simp
next
  case (list_emb_Cons2 x y xs ys)
  then have "set xs \<subseteq> set ys"
    using subseq_order.dual_order.trans [of ys ys] by (auto dest: list_emb_set)
  with list_emb_Cons2 show ?case by auto
qed

lemma not_excluded_dot: "\<not> EXCLUDED_CHARS (CHR ''.'')"
  by (simp add: EXCLUDED_CHARS_def)

lemma sub_char_dot:
  "c \<noteq> CHR ''.'' \<Longrightarrow> ((if EXCLUDED_CHARS x then c else x) = CHR ''.'') = (x = CHR ''.'')"
  using not_excluded_dot by auto

lemma dots_lead_re_sub: "c \<noteq> CHR ''.'' \<Longrightarrow> dots_lead s \<Longrightarrow> dots_lead (re_sub c s)"
  by (simp add: dots_lead_def re_sub_def sorted_wrt_map sub_char_dot)

lemma subseq_join_filter: "subseq (join c (filter P ws)) (join c ws)"
proof (induction ws)
  case Nil
  then show ?case by simp
next
  case (Cons w ws)
  show ?case
  proof (cases "ws = []")
    case True
    then show ?thesis by simp
  next
    case False
    then have j: "join c (w # ws) = w @ c # join c ws" by (simp add: join_Cons)
    show ?thesis
    proof (cases "P w")
      case True
      show ?thesis
      proof (cases "filter P ws = []")
        case True
        with \<open>P w\<close> j show ?thesis by (simp add: list_emb_prefix)
      next
        case f: False
        with True j Cons show ?thesis
          by (simp add: join_Cons subseq_append')
      qed
    next
      case False
      have "subseq (join c (filter P ws)) (w @ c # join c ws)"
        using Cons by (intro subseq_drop_many) (rule list_emb_Cons)
      with False j show ?thesis by simp
    qed
  qed
qed

lemma subseq_join_components: "subseq (join c (components c s)) (re_sub c s)"
  using subseq_join_filter [of c "\<lambda>w. w \<noteq> []" "split c (re_sub c s)"]
  by (simp add: components_parts parts_def join_split)

lemma join_butlast_last:
  "2 \<le> length ws \<Longrightarrow> join c ws = join c (butlast ws) @ c # last ws"
proof (induction c ws rule: join.induct)
  case (3 c w v ws)
  show ?case
  proof (cases ws)
    case Nil
    then show ?thesis by simp
  next
    case (Cons u us)
    with 3 show ?thesis by simp
  qed
qed simp_all

lemma generate_new_pathname_candidate_name:
  "generate_new_pathname root p c = candidate_name (os_path_isfile root p) (snd (os_path_split p)) c"
  by (simp add: generate_new_pathname_def candidate_name_def components_def Let_def split: prod.splits)

lemma word_chars_ok_components: "word_chars_ok (components c s)"
  using in_components by (auto simp: word_chars_ok_def)

lemma word_chars_ok_butlast: "word_chars_ok ws \<Longrightarrow> word_chars_ok (butlast ws)"
  by (auto simp: word_chars_ok_def dest: in_set_butlastD)

lemma join_has_non_dot:
  assumes g: "good_words c ws" and n: "2 \<le> length ws"
  shows "\<exists>x \<in> set (join c ws). x \<noteq> CHR ''.''"
proof (cases "c = CHR ''.''")
  case True
  from n have ne: "ws \<noteq> []" by auto
  then have "join c ws \<noteq> []" using g by (simp add: join_not_Nil)
  then have "hd (join c ws) \<in> set (join c ws)" by simp
  moreover have "hd (join c ws) \<noteq> c" using g ne by (simp add: hd_join_not_sep)
  ultimately show ?thesis using True by blast
next
  case False
  from n have "join c ws = join c (butlast ws) @ c # last ws"
    by (rule join_butlast_last)
  then have "c \<in> set (join c ws)" by simp
  with False show ?thesis by blast
qed

lemma join_one_non_dot:
  assumes g: "good_words (CHR ''.'') ws" and n: "ws \<noteq> []"
  shows "\<exists>x \<in> set (join (CHR ''.'') ws). x \<noteq> CHR ''.''"
proof -
  have "join (CHR ''.'') ws \<noteq> []" using g n by (simp add: join_not_Nil)
  then have "hd (join (CHR ''.'') ws) \<in> set (join (CHR ''.'') ws)" by simp
  moreover have "hd (join (CHR ''.'') ws) \<noteq> CHR ''.''" using g n by (simp add: hd_join_not_sep)
  ultimately show ?thesis by blast
qed

text \<open>The shape of a name that the generator changed.\<close>

lemma changed_dir:
  assumes "candidate_name False old c \<noteq> old"
  shows "2 \<le> length (components c old) \<and> candidate_name False old c = join c (components c old)"
  using assms by (auto simp: candidate_name_def split: if_splits)

lemma changed_file:
  assumes "candidate_name True old c \<noteq> old" and "splitext old = (r, e)"
  shows "2 \<le> length (components c r) \<and> candidate_name True old c = join c (components c r) @ e"
  using assms by (auto simp: candidate_name_def split: if_splits)

lemma splitext_changed_ext:
  assumes s: "splitext old = (r, e)" and e: "e \<noteq> []" and n: "2 \<le> length (components c r)"
  shows "splitext (join c (components c r) @ e) = (join c (components c r), e)"
proof -
  from splitext_ext [OF s e] obtain e' where e': "e = CHR ''.'' # e'" "CHR ''.'' \<notin> set e'"
    by blast
  have "\<exists>x \<in> set (join c (components c r)). x \<noteq> CHR ''.''"
    using good_words_components n by (rule join_has_non_dot)
  with e' show ?thesis by (simp add: splitext_build)
qed

lemma splitext_changed_no_ext_dot:
  assumes n: "2 \<le> length (components (CHR ''.'') r)"
  shows "splitext (join (CHR ''.'') (components (CHR ''.'') r)) =
           (join (CHR ''.'') (butlast (components (CHR ''.'') r)), CHR ''.'' # last (components (CHR ''.'') r))"
proof -
  let ?ws = "components (CHR ''.'') r"
  have g: "good_words (CHR ''.'') ?ws" by (rule good_words_components)
  from n have ne: "?ws \<noteq> []" "butlast ?ws \<noteq> []" by (auto simp: butlast_conv_take)
  then have "last ?ws \<in> set ?ws" by simp
  with g have l: "CHR ''.'' \<notin> set (last ?ws)" by (auto simp: good_words_def)
  have "\<exists>x \<in> set (join (CHR ''.'') (butlast ?ws)). x \<noteq> CHR ''.''"
    using good_words_butlast [OF g] ne(2) by (rule join_one_non_dot)
  with l have "splitext (join (CHR ''.'') (butlast ?ws) @ CHR ''.'' # last ?ws) =
      (join (CHR ''.'') (butlast ?ws), CHR ''.'' # last ?ws)"
    by (rule splitext_build)
  with join_butlast_last [OF n] show ?thesis by simp
qed

lemma splitext_changed_no_ext:
  assumes s: "splitext old = (r, [])" and c: "c \<noteq> CHR ''.''"
  shows "splitext (join c (components c old)) = (join c (components c old), [])"
proof -
  have "dots_lead old" using s by (rule no_ext_dots_lead)
  then have "dots_lead (re_sub c old)" using c by (simp add: dots_lead_re_sub)
  with subseq_join_components have "dots_lead (join c (components c old))"
    by (rule dots_lead_subseq)
  then show ?thesis by (rule splitext_dots_lead)
qed

lemma changed_shape:
  assumes ch: "candidate_name b old c \<noteq> old"
  shows "\<exists>ws e. ws \<noteq> [] \<and> good_words c ws \<and> word_chars_ok ws \<and>
           (if b then splitext (candidate_name b old c) = (join c ws, e)
            else candidate_name b old c = join c ws)"
proof (cases b)
  case False
  with ch changed_dir [of old c] have "2 \<le> length (components c old)"
    "candidate_name b old c = join c (components c old)" by auto
  moreover from this have "components c old \<noteq> []" by auto
  ultimately show ?thesis
    using False good_words_components word_chars_ok_components by auto
next
  case True
  obtain r e where s: "splitext old = (r, e)" by (cases "splitext old")
  with ch True changed_file [of old c r e] have n: "2 \<le> length (components c r)"
    and eq: "candidate_name b old c = join c (components c r) @ e" by auto
  from n have ne: "components c r \<noteq> []" by auto
  show ?thesis
  proof (cases "e = []")
    case False
    from splitext_changed_ext [OF s False n] eq True ne show ?thesis
      using good_words_components word_chars_ok_components by auto
  next
    case e: True
    with s have old: "old = r" using splitext_append by fastforce
    show ?thesis
    proof (cases "c = CHR ''.''")
      case False
      from splitext_changed_no_ext [OF s [unfolded e] False] eq e old True ne show ?thesis
        using good_words_components word_chars_ok_components by auto
    next
      case dot: True
      let ?ws = "butlast (components c r)"
      from n have "?ws \<noteq> []" by (auto simp: butlast_conv_take)
      moreover have "good_words c ?ws" "word_chars_ok ?ws"
        using good_words_components good_words_butlast word_chars_ok_components word_chars_ok_butlast
        by blast+
      moreover have "splitext (candidate_name b old c) = (join c ?ws, CHR ''.'' # last (components c r))"
        using splitext_changed_no_ext_dot [of r] n eq e dot by simp
      ultimately show ?thesis using True by auto
    qed
  qed
qed

lemma candidate_name_idem: "candidate_name b (candidate_name b old c) c = candidate_name b old c"
proof (cases "candidate_name b old c = old")
  case True
  then show ?thesis by simp
next
  case False
  from changed_shape [OF False] obtain ws e where ws: "ws \<noteq> []" "good_words c ws" "word_chars_ok ws"
    and sh: "if b then splitext (candidate_name b old c) = (join c ws, e) else candidate_name b old c = join c ws"
    by blast
  have cj: "components c (join c ws) = ws"
    using ws by (simp add: components_join word_chars_ok_def)
  show ?thesis
  proof (cases b)
    case True
    with sh have s: "splitext (candidate_name b old c) = (join c ws, e)" by simp
    then have "candidate_name b old c = join c ws @ e" by (rule splitext_append)
    with s True cj show ?thesis by (simp add: candidate_name_def)
  next
    case False
    with sh have "candidate_name b old c = join c ws" by simp
    with False cj show ?thesis by (simp add: candidate_name_def)
  qed
qed

lemma hd_split_Nil: "hd (split c s) = [] \<longleftrightarrow> s = [] \<or> leading c s"
  by (cases s) (auto simp: leading_def)

lemma tl_split_Nil: "[] \<in> set (tl (split c s)) \<Longrightarrow> trailing c s \<or> consecutive c s"
proof (induction s)
  case Nil
  then show ?case by simp
next
  case (Cons x s)
  show ?case
  proof (cases "x = c")
    case False
    with Cons have "trailing c s \<or> consecutive c s" by simp
    then show ?thesis by (cases s) (auto simp: trailing_def)
  next
    case True
    with Cons.prems have "[] \<in> set (split c s)" by simp
    then have "hd (split c s) = [] \<or> [] \<in> set (tl (split c s))"
      by (cases "split c s") auto
    then show ?thesis
    proof
      assume "hd (split c s) = []"
      then have "s = [] \<or> leading c s" by (simp add: hd_split_Nil)
      with True show ?thesis by (cases s) (auto simp: trailing_def leading_def)
    next
      assume "[] \<in> set (tl (split c s))"
      then have s: "trailing c s \<or> consecutive c s" by (rule Cons.IH)
      then show ?thesis by (cases s) (auto simp: trailing_def)
    qed
  qed
qed

lemma Nil_in_split: "[] \<in> set (split c s) \<Longrightarrow> s = [] \<or> leading c s \<or> trailing c s \<or> consecutive c s"
proof -
  assume "[] \<in> set (split c s)"
  then have "hd (split c s) = [] \<or> [] \<in> set (tl (split c s))"
    by (cases "split c s") auto
  then show ?thesis using hd_split_Nil tl_split_Nil by blast
qed

lemma sanitized_fixed:
  assumes "sanitized c s"
  shows "length (components c s) < 2 \<or> join c (components c s) = s"
proof (cases "s = []")
  case True
  then show ?thesis by (simp add: components_def re_sub_def strip_def)
next
  case False
  from assms have "\<forall>x \<in> set s. \<not> EXCLUDED_CHARS x \<or> x = c"
    by (simp add: sanitized_def list_all_iff)
  then have r: "re_sub c s = s" by (rule re_sub_id)
  have "[] \<notin> set (split c s)"
    using Nil_in_split [of c s] assms False by (auto simp: sanitized_def)
  then have "filter (\<lambda>w. w \<noteq> []) (split c s) = split c s"
    by (simp add: filter_id_conv) metis
  then have "components c s = split c s"
    by (simp add: components_parts parts_def r)
  then show ?thesis by (simp add: join_split)
qed

lemma sanitized_unchanged: "sanitized c (sanitized_portion b old) \<Longrightarrow> candidate_name b old c = old"
proof (cases b)
  case False
  assume "sanitized c (sanitized_portion b old)"
  with False sanitized_fixed [of c old] show ?thesis
    by (auto simp: candidate_name_def sanitized_portion_def)
next
  case True
  assume a: "sanitized c (sanitized_portion b old)"
  obtain r e where s: "splitext old = (r, e)" by (cases "splitext old")
  then have "old = r @ e" by (rule splitext_append)
  with a True s sanitized_fixed [of c r] show ?thesis
    by (auto simp: candidate_name_def sanitized_portion_def)
qed

lemma sanitized_join:
  assumes "ws \<noteq> []" "good_words c ws" "word_chars_ok ws" "\<not> EXCLUDED_CHARS c"
  shows "join c ws \<noteq> [] \<and> sanitized c (join c ws)"
proof -
  have ne: "join c ws \<noteq> []" using assms by (simp add: join_not_Nil)
  have "\<forall>x \<in> set (join c ws). \<not> EXCLUDED_CHARS x"
    using set_join [of c ws] assms(3,4) by (auto simp: word_chars_ok_def)
  moreover have "\<not> leading c (join c ws)"
    using hd_join_not_sep [OF assms(2,1)] ne by (cases "join c ws") (auto simp: leading_def)
  moreover have "\<not> trailing c (join c ws)"
    using last_join_not_sep [OF assms(2,1)] by (simp add: trailing_def)
  moreover have "\<not> consecutive c (join c ws)"
    using assms(2) by (rule not_consecutive_join)
  ultimately show ?thesis using ne by (simp add: sanitized_def list_all_iff)
qed

lemma not_all_char_join:
  assumes "ws \<noteq> []" "good_words c ws"
  shows "\<not> all_char c (join c ws)"
proof
  assume "all_char c (join c ws)"
  then have "join c ws \<noteq> []" "\<forall>x \<in> set (join c ws). x = c"
    by (simp_all add: all_char_def list_all_iff)
  then have "hd (join c ws) = c" by simp
  with hd_join_not_sep [OF assms(2,1)] show False by simp
qed

lemma changed_portion:
  assumes "candidate_name b old c \<noteq> old"
  shows "\<exists>ws. ws \<noteq> [] \<and> good_words c ws \<and> word_chars_ok ws \<and>
           sanitized_portion b (candidate_name b old c) = join c ws"
  using changed_shape [OF assms] by (cases b) (auto simp: sanitized_portion_def)

subsection \<open>Runs\<close>

lemma re_sub_Cons: "re_sub c (x # xs) = (if EXCLUDED_CHARS x then c else x) # re_sub c xs"
  by (simp add: re_sub_def)

lemma split_re_sub_dropWhile:
  "filter (\<lambda>w. w \<noteq> []) (split c (re_sub c (dropWhile EXCLUDED_CHARS xs))) =
   filter (\<lambda>w. w \<noteq> []) (split c (re_sub c xs))"
  by (induction xs) (auto simp: re_sub_Cons)

lemma filter_hd_tl:
  "hd xs = hd ys \<and> filter P (tl xs) = filter P (tl ys) \<Longrightarrow> xs \<noteq> [] \<Longrightarrow> ys \<noteq> [] \<Longrightarrow>
   filter P xs = filter P ys"
  by (cases xs; cases ys) auto

lemma sub_runs_split:
  "hd (split c (sub_runs c s)) = hd (split c (re_sub c s)) \<and>
   filter (\<lambda>w. w \<noteq> []) (tl (split c (sub_runs c s))) =
   filter (\<lambda>w. w \<noteq> []) (tl (split c (re_sub c s)))"
proof (induction c s rule: sub_runs.induct)
  case (1 c)
  then show ?case by (simp add: re_sub_def)
next
  case (2 c x xs)
  show ?case
  proof (cases "EXCLUDED_CHARS x")
    case True
    let ?d = "dropWhile EXCLUDED_CHARS xs"
    have "filter (\<lambda>w. w \<noteq> []) (split c (sub_runs c ?d)) = filter (\<lambda>w. w \<noteq> []) (split c (re_sub c ?d))"
      using 2(1) [OF True] by (rule filter_hd_tl) simp_all
    with True show ?thesis
      by (simp add: re_sub_Cons split_re_sub_dropWhile)
  next
    case False
    have "filter (\<lambda>w. w \<noteq> []) (split c (sub_runs c xs)) = filter (\<lambda>w. w \<noteq> []) (split c (re_sub c xs))"
      using 2(2) [OF False] by (rule filter_hd_tl) simp_all
    with False 2(2) show ?thesis by (simp add: re_sub_Cons)
  qed
qed

lemma parts_sub_runs: "parts c (sub_runs c s) = parts c (re_sub c s)"
  unfolding parts_def using sub_runs_split [of c s] by (rule filter_hd_tl) simp_all

lemma spec_components: "filter (\<lambda>w. w \<noteq> []) (split c (strip c (sub_runs c s))) = components c s"
  using parts_strip [of c "sub_runs c s"] parts_sub_runs [of c s]
  by (simp add: parts_def components_parts)

lemma spec_candidate_candidate_name: "spec_candidate b old c = candidate_name b old c"
  by (cases b; cases "splitext old")
     (simp_all add: spec_candidate_def candidate_name_def spec_components Let_def)

section \<open>Properties of the name generator\<close>

lemmas name_eval =
  generate_new_pathname_def os_path_split_def os_path_isfile_def example_tree_def
  splitext_def strip_def re_sub_def EXCLUDED_CHARS_def components_def sanitized_portion_def
  sanitized_def leading_def trailing_def all_char_def spec_candidate_def

text \<open>
  C3. For every basename and substitution character: when the sanitized portion (the root
  of a file, the whole name of a directory), after replacement, trimming and splitting on
  the substitution character with the empty components removed, has fewer than two
  components, the name generator returns the original basename, extension included.
\<close>

theorem minimum_component_policy:
  assumes "length (components c (sanitized_portion (os_path_isfile root p) (snd (os_path_split p)))) < 2"
  shows "generate_new_pathname root p c = snd (os_path_split p)"
proof (cases "os_path_isfile root p")
  case True
  obtain r e where "splitext (snd (os_path_split p)) = (r, e)"
    by (cases "splitext (snd (os_path_split p))")
  with assms True show ?thesis
    by (simp add: generate_new_pathname_candidate_name candidate_name_def sanitized_portion_def)
next
  case False
  with assms show ?thesis
    by (simp add: generate_new_pathname_candidate_name candidate_name_def sanitized_portion_def)
qed

theorem minimum_component_policy_witness:
  "length (components (CHR ''_'')
     (sanitized_portion (os_path_isfile example_tree [''home'', ''***.txt''])
        (snd (os_path_split [''home'', ''***.txt''])))) < 2 \<and>
   generate_new_pathname example_tree [''home'', ''***.txt''] (CHR ''_'') = ''***.txt''"
proof -
  have h: "length (components (CHR ''_'')
     (sanitized_portion (os_path_isfile example_tree [''home'', ''***.txt''])
        (snd (os_path_split [''home'', ''***.txt''])))) < 2"
    by (simp add: name_eval)
  from minimum_component_policy [OF h] h show ?thesis
    by (simp add: os_path_split_def)
qed

text \<open>
  C6. For a file whose basename splits into a root and a non-empty extension, the name
  the generator returns splits into a root and the same extension: the rejoined
  components when the root has at least two of them, the original root otherwise.
\<close>

theorem extension_preserved:
  assumes "os_path_isfile root p"
    and "splitext (snd (os_path_split p)) = (r, e)"
    and "e \<noteq> []"
  shows "splitext (generate_new_pathname root p c) =
           (if length (components c r) < 2 then r else join c (components c r), e)"
proof (cases "length (components c r) < 2")
  case True
  with assms show ?thesis
    by (simp add: generate_new_pathname_candidate_name candidate_name_def)
next
  case False
  then have n: "2 \<le> length (components c r)" by simp
  from assms False have "generate_new_pathname root p c = join c (components c r) @ e"
    by (simp add: generate_new_pathname_candidate_name candidate_name_def)
  with splitext_changed_ext [OF assms(2,3) n] False show ?thesis by simp
qed

theorem extension_preserved_witness:
  "os_path_isfile example_tree [''home'', ''my file (2023).txt''] \<and>
   splitext (snd (os_path_split [''home'', ''my file (2023).txt''])) = (''my file (2023)'', ''.txt'') \<and>
   ''.txt'' \<noteq> [] \<and>
   splitext (generate_new_pathname example_tree [''home'', ''my file (2023).txt''] (CHR ''_'')) =
     (''my_file_2023'', ''.txt'')"
proof -
  have f: "os_path_isfile example_tree [''home'', ''my file (2023).txt'']"
    by (simp add: name_eval)
  have s: "splitext (snd (os_path_split [''home'', ''my file (2023).txt''])) = (''my file (2023)'', ''.txt'')"
    by (simp add: name_eval)
  have e: "''.txt'' \<noteq> []" by simp
  have c: "components (CHR ''_'') ''my file (2023)'' = [''my'', ''file'', ''2023'']"
    by (simp add: name_eval)
  from extension_preserved [OF f s e, of "CHR ''_''"] f s show ?thesis
    by (simp add: c)
qed

text \<open>
  C7, as the code has it. A name whose sanitized portion (the root of a file, the whole
  name of a directory) holds only allowed characters and no leading, trailing or
  consecutive substitution character is returned unchanged; and the generator applied to
  its own result, for an entry of the same kind, returns that result again.
\<close>

theorem idempotent_on_sanitized_portion:
  "(sanitized c (sanitized_portion (os_path_isfile root p) (snd (os_path_split p))) \<longrightarrow>
      generate_new_pathname root p c = snd (os_path_split p)) \<and>
   (os_path_isfile root' q = os_path_isfile root p \<and>
    snd (os_path_split q) = generate_new_pathname root p c \<longrightarrow>
      generate_new_pathname root' q c = generate_new_pathname root p c)"
proof (intro conjI impI)
  assume "sanitized c (sanitized_portion (os_path_isfile root p) (snd (os_path_split p)))"
  then show "generate_new_pathname root p c = snd (os_path_split p)"
    by (simp add: generate_new_pathname_candidate_name sanitized_unchanged)
next
  assume "os_path_isfile root' q = os_path_isfile root p \<and>
    snd (os_path_split q) = generate_new_pathname root p c"
  then show "generate_new_pathname root' q c = generate_new_pathname root p c"
    by (simp add: generate_new_pathname_candidate_name candidate_name_idem)
qed

theorem idempotent_on_sanitized_portion_witness:
  "sanitized (CHR ''_'')
     (sanitized_portion (os_path_isfile example_tree [''home'', ''a_1.txt''])
        (snd (os_path_split [''home'', ''a_1.txt'']))) \<and>
   generate_new_pathname example_tree [''home'', ''a_1.txt''] (CHR ''_'') = ''a_1.txt'' \<and>
   os_path_isfile (Dir [(''my_file_2023.txt'', File)]) [''my_file_2023.txt''] =
     os_path_isfile example_tree [''home'', ''my file (2023).txt''] \<and>
   snd (os_path_split [''my_file_2023.txt'']) =
     generate_new_pathname example_tree [''home'', ''my file (2023).txt''] (CHR ''_'') \<and>
   generate_new_pathname (Dir [(''my_file_2023.txt'', File)]) [''my_file_2023.txt''] (CHR ''_'') =
     ''my_file_2023.txt''"
proof -
  have a: "sanitized (CHR ''_'')
     (sanitized_portion (os_path_isfile example_tree [''home'', ''a_1.txt''])
        (snd (os_path_split [''home'', ''a_1.txt''])))"
    by (simp add: name_eval)
  have b: "os_path_isfile (Dir [(''my_file_2023.txt'', File)]) [''my_file_2023.txt''] =
     os_path_isfile example_tree [''home'', ''my file (2023).txt'']"
    by (simp add: name_eval)
  have c: "generate_new_pathname example_tree [''home'', ''my file (2023).txt''] (CHR ''_'') =
     ''my_file_2023.txt''"
    by (simp add: name_eval)
  have d: "snd (os_path_split [''my_file_2023.txt'']) = ''my_file_2023.txt''"
    by (simp add: os_path_split_def)
  from idempotent_on_sanitized_portion
         [of "CHR ''_''" example_tree "[''home'', ''a_1.txt'']" example_tree "[''home'', ''a_1.txt'']"] a
  have 1: "generate_new_pathname example_tree [''home'', ''a_1.txt''] (CHR ''_'') = ''a_1.txt''"
    by (simp add: os_path_split_def)
  from idempotent_on_sanitized_portion
         [of "CHR ''_''" example_tree "[''home'', ''my file (2023).txt'']"
             "Dir [(''my_file_2023.txt'', File)]" "[''my_file_2023.txt'']"] b c d
  have 2: "generate_new_pathname (Dir [(''my_file_2023.txt'', File)]) [''my_file_2023.txt''] (CHR ''_'') =
     ''my_file_2023.txt''"
    by simp
  from a b c d 1 2 show ?thesis by simp
qed

text \<open>
  C7, as stated, fails: the basename \<^verbatim>\<open>a_b_.txt\<close> of a file holds only allowed characters
  and the substitution character \<^verbatim>\<open>_\<close> neither leads, trails nor repeats in it, yet the
  generator returns \<^verbatim>\<open>a_b.txt\<close>, since the root \<^verbatim>\<open>a_b_\<close> is trimmed.
\<close>

theorem idempotent_on_sanitized_name_counterexample:
  "sanitized (CHR ''_'') ''a_b_.txt'' \<and>
   \<not> EXCLUDED_CHARS (CHR ''_'') \<and>
   os_path_isfile example_tree [''home'', ''a_b_.txt''] \<and>
   snd (os_path_split [''home'', ''a_b_.txt'']) = ''a_b_.txt'' \<and>
   generate_new_pathname example_tree [''home'', ''a_b_.txt''] (CHR ''_'') = ''a_b.txt'' \<and>
   generate_new_pathname example_tree [''home'', ''a_b_.txt''] (CHR ''_'') \<noteq>
     snd (os_path_split [''home'', ''a_b_.txt''])"
  by (simp add: name_eval)

text \<open>
  C8. The name the code computes, substituting one character at a time, is the name the
  description computes, substituting each maximal run of disallowed characters by one
  substitution character, for every basename and every substitution character.
\<close>

theorem per_character_substitution_refines_runs:
  "generate_new_pathname root p c =
     spec_candidate (os_path_isfile root p) (snd (os_path_split p)) c"
  by (simp add: generate_new_pathname_candidate_name spec_candidate_candidate_name)

theorem per_character_substitution_refines_runs_witness:
  "generate_new_pathname example_tree [''home'', ''my file (2023).txt''] (CHR ''_'') =
     spec_candidate True ''my file (2023).txt'' (CHR ''_'') \<and>
   spec_candidate True ''my file (2023).txt'' (CHR ''_'') = ''my_file_2023.txt'' \<and>
   sub_runs (CHR ''_'') ''my file (2023)'' = ''my_file_2023_'' \<and>
   re_sub (CHR ''_'') ''my file (2023)'' = ''my_file__2023_''"
  using per_character_substitution_refines_runs
          [of example_tree "[''home'', ''my file (2023).txt'']" "CHR ''_''"]
  by (simp add: name_eval)

text \<open>
  C9, as the code has it. The sanitized portion of the returned name consists solely of
  the substitution character only when the generator returns the original basename, whose
  own sanitized portion then consists solely of that character.
\<close>

theorem all_separator_only_when_unchanged:
  assumes "all_char c (sanitized_portion (os_path_isfile root p) (generate_new_pathname root p c))"
  shows "generate_new_pathname root p c = snd (os_path_split p) \<and>
         all_char c (sanitized_portion (os_path_isfile root p) (snd (os_path_split p)))"
proof -
  have "generate_new_pathname root p c = snd (os_path_split p)"
  proof (rule ccontr)
    assume "generate_new_pathname root p c \<noteq> snd (os_path_split p)"
    then have "candidate_name (os_path_isfile root p) (snd (os_path_split p)) c \<noteq> snd (os_path_split p)"
      by (simp add: generate_new_pathname_candidate_name)
    from changed_portion [OF this] obtain ws where "ws \<noteq> []" "good_words c ws"
      "sanitized_portion (os_path_isfile root p) (generate_new_pathname root p c) = join c ws"
      by (auto simp: generate_new_pathname_candidate_name)
    with not_all_char_join [of ws c] assms show False by simp
  qed
  with assms show ?thesis by simp
qed

theorem all_separator_only_when_unchanged_witness:
  "all_char (CHR ''_'')
     (sanitized_portion (os_path_isfile example_tree [''home'', ''_.txt''])
        (generate_new_pathname example_tree [''home'', ''_.txt''] (CHR ''_''))) \<and>
   generate_new_pathname example_tree [''home'', ''_.txt''] (CHR ''_'') =
     snd (os_path_split [''home'', ''_.txt'']) \<and>
   all_char (CHR ''_'')
     (sanitized_portion (os_path_isfile example_tree [''home'', ''_.txt''])
        (snd (os_path_split [''home'', ''_.txt''])))"
proof -
  have h: "all_char (CHR ''_'')
     (sanitized_portion (os_path_isfile example_tree [''home'', ''_.txt''])
        (generate_new_pathname example_tree [''home'', ''_.txt''] (CHR ''_'')))"
    by (simp add: name_eval)
  from all_separator_only_when_unchanged [OF h] h show ?thesis by simp
qed

text \<open>
  C9, as stated, fails: for the file \<^verbatim>\<open>_.txt\<close> and the allowed substitution character
  \<^verbatim>\<open>_\<close> the generator returns \<^verbatim>\<open>_.txt\<close>, whose root \<^verbatim>\<open>_\<close> consists solely of the
  substitution character.
\<close>

theorem all_separator_output_counterexample:
  "\<not> EXCLUDED_CHARS (CHR ''_'') \<and>
   generate_new_pathname example_tree [''home'', ''_.txt''] (CHR ''_'') = ''_.txt'' \<and>
   sanitized_portion (os_path_isfile example_tree [''home'', ''_.txt''])
     (generate_new_pathname example_tree [''home'', ''_.txt''] (CHR ''_'')) = ''_'' \<and>
   all_char (CHR ''_'') ''_''"
  by (simp add: name_eval)

text \<open>
  C10. Whenever the generator returns a name other than the original basename, for an
  allowed substitution character, the sanitized portion of the returned name is not
  empty, holds only allowed characters, neither begins nor ends with the substitution
  character and holds no two of them in a row.
\<close>

theorem changed_name_is_sanitized:
  assumes "\<not> EXCLUDED_CHARS c"
    and "generate_new_pathname root p c \<noteq> snd (os_path_split p)"
  shows "sanitized_portion (os_path_isfile root p) (generate_new_pathname root p c) \<noteq> [] \<and>
         list_all (\<lambda>x. \<not> EXCLUDED_CHARS x)
           (sanitized_portion (os_path_isfile root p) (generate_new_pathname root p c)) \<and>
         \<not> leading c (sanitized_portion (os_path_isfile root p) (generate_new_pathname root p c)) \<and>
         \<not> trailing c (sanitized_portion (os_path_isfile root p) (generate_new_pathname root p c)) \<and>
         \<not> consecutive c (sanitized_portion (os_path_isfile root p) (generate_new_pathname root p c))"
proof -
  from assms(2)
  have "candidate_name (os_path_isfile root p) (snd (os_path_split p)) c \<noteq> snd (os_path_split p)"
    by (simp add: generate_new_pathname_candidate_name)
  from changed_portion [OF this] obtain ws where ws: "ws \<noteq> []" "good_words c ws" "word_chars_ok ws"
    and eq: "sanitized_portion (os_path_isfile root p) (generate_new_pathname root p c) = join c ws"
    by (auto simp: generate_new_pathname_candidate_name)
  from sanitized_join [OF ws assms(1)] eq show ?thesis
    by (simp add: sanitized_def)
qed

theorem changed_name_is_sanitized_witness:
  "\<not> EXCLUDED_CHARS (CHR ''_'') \<and>
   generate_new_pathname example_tree [''home'', ''my file (2023).txt''] (CHR ''_'') \<noteq>
     snd (os_path_split [''home'', ''my file (2023).txt'']) \<and>
   sanitized_portion (os_path_isfile example_tree [''home'', ''my file (2023).txt''])
     (generate_new_pathname example_tree [''home'', ''my file (2023).txt''] (CHR ''_'')) = ''my_file_2023'' \<and>
   list_all (\<lambda>x. \<not> EXCLUDED_CHARS x) ''my_file_2023'' \<and>
   \<not> leading (CHR ''_'') ''my_file_2023'' \<and>
   \<not> trailing (CHR ''_'') ''my_file_2023'' \<and>
   \<not> consecutive (CHR ''_'') ''my_file_2023''"
proof -
  have a: "\<not> EXCLUDED_CHARS (CHR ''_'')"
    by (simp add: EXCLUDED_CHARS_def)
  have b: "generate_new_pathname example_tree [''home'', ''my file (2023).txt''] (CHR ''_'') \<noteq>
     snd (os_path_split [''home'', ''my file (2023).txt''])"
    by (simp add: name_eval)
  have c: "sanitized_portion (os_path_isfile example_tree [''home'', ''my file (2023).txt''])
     (generate_new_pathname example_tree [''home'', ''my file (2023).txt''] (CHR ''_'')) = ''my_file_2023''"
    by (simp add: name_eval)
  from changed_name_is_sanitized [OF a b] a b c show ?thesis by simp
qed

section \<open>Properties of the traversal and rename engine\<close>

lemma tree_called [simp]: "tree (called e st) = tree st"
  by (simp add: called_def)

lemma stdout_called [simp]: "stdout (called e st) = stdout st"
  by (simp add: called_def)

lemma calls_called [simp]: "calls (called e st) = calls st @ [e]"
  by (simp add: called_def)





































lemmas tree_eval =
  example_state_def example_tree_def os_path_isdir_def os_path_isfile_def os_path_exists_def
  get_children_def os_walk_def os_path_join_def is_dir_entry_def


lemma tree_fold_called [simp]: "tree (fold (\<lambda>file. called (f file)) files st) = tree st"
  by (induction files arbitrary: st) auto

lemma stdout_fold_called [simp]: "stdout (fold (\<lambda>file. called (f file)) files st) = stdout st"
  by (induction files arbitrary: st) auto

lemma calls_fold_called [simp]:
  "calls (fold (\<lambda>file. called (f file)) files st) = calls st @ map f files"
  by (induction files arbitrary: st) auto

lemma check_exists_fst:
  "fst (check_exists st ps) = find (\<lambda>p. \<not> os_path_exists (tree st) p) ps"
  by (induction ps arbitrary: st) (auto simp: Let_def)

lemma check_exists_tree [simp]: "tree (snd (check_exists st ps)) = tree st"
  by (induction ps arbitrary: st) (auto simp: Let_def)

lemma check_exists_stdout [simp]: "stdout (snd (check_exists st ps)) = stdout st"
  by (induction ps arbitrary: st) (auto simp: Let_def)

lemma check_exists_calls:
  "\<exists>k. calls (snd (check_exists st ps)) = calls st @ map Exists (take k ps)"
proof (induction ps arbitrary: st)
  case Nil
  then show ?case by simp
next
  case (Cons p ps)
  show ?case
  proof (cases "os_path_exists (tree st) p")
    case False
    then have "calls (snd (check_exists st (p # ps))) = calls st @ map Exists (take 1 (p # ps))"
      by (simp add: Let_def)
    then show ?thesis by blast
  next
    case True
    from Cons [of "called (Exists p) st"] obtain k where
      "calls (snd (check_exists (called (Exists p) st) ps)) =
         calls (called (Exists p) st) @ map Exists (take k ps)" by blast
    with True have "calls (snd (check_exists st (p # ps))) = calls st @ map Exists (take (Suc k) (p # ps))"
      by (simp add: Let_def)
    then show ?thesis by blast
  qed
qed

lemma find_missing:
  "\<exists>p \<in> set files. \<not> os_path_exists root p \<Longrightarrow>
   \<exists>missing. find (\<lambda>p. \<not> os_path_exists root p) files = Some missing \<and>
             missing \<in> set files \<and> \<not> os_path_exists root missing"
proof -
  assume "\<exists>p \<in> set files. \<not> os_path_exists root p"
  then have "find (\<lambda>p. \<not> os_path_exists root p) files \<noteq> None"
    by (auto simp: find_None_iff)
  then obtain missing where m: "find (\<lambda>p. \<not> os_path_exists root p) files = Some missing"
    by auto
  then have "missing \<in> set files \<and> \<not> os_path_exists root missing"
    by (auto simp: find_Some_iff)
  with m show ?thesis by blast
qed

lemma rename_file_missing:
  assumes "length char = 1" and "\<not> EXCLUDED_CHARS (hd char)"
    and "find (\<lambda>p. \<not> os_path_exists (tree st) p) files = Some missing"
  shows "fst (rename_file st char files recursive verbose suppress_errors) =
           (if suppress_errors then Exited 1 else Raised (FileNotFoundError missing))"
    and "snd (rename_file st char files recursive verbose suppress_errors) =
           snd (check_exists (fold (\<lambda>file. called (Realpath file)) files st) files)"
proof -
  let ?st1 = "fold (\<lambda>file. called (Realpath file)) files st"
  obtain r st2 where c: "check_exists ?st1 files = (r, st2)"
    by (cases "check_exists ?st1 files")
  have "r = fst (check_exists ?st1 files)" using c by simp
  then have r: "r = Some missing"
    using assms(3) by (simp add: check_exists_fst)
  from assms(1,2) c r
  show "fst (rename_file st char files recursive verbose suppress_errors) =
           (if suppress_errors then Exited 1 else Raised (FileNotFoundError missing))"
    by (simp add: rename_file_def Let_def)
  from assms(1,2) c r
  show "snd (rename_file st char files recursive verbose suppress_errors) =
           snd (check_exists ?st1 files)"
    by (simp add: rename_file_def Let_def)
qed

text \<open>
  C5. With \<^verbatim>\<open>suppress_errors\<close> false: a substitution string that is not one character
  long, or whose character is disallowed, raises the \<^verbatim>\<open>ValueError\<close> and leaves the whole
  state as it was, no file-system call made; with a valid character and an input path that
  does not exist, the first such path is raised as \<^verbatim>\<open>FileNotFoundError\<close>, the tree and
  the output are unchanged, and the only calls made are the path resolutions and existence
  checks.
\<close>

theorem validation_errors_before_any_rename:
  "(length char \<noteq> 1 \<longrightarrow>
      rename_file st char files recursive verbose False =
        (Raised (ValueError (char @ '' must be a single character.'')), st)) \<and>
   (length char = 1 \<and> EXCLUDED_CHARS (hd char) \<longrightarrow>
      rename_file st char files recursive verbose False =
        (Raised (ValueError (''Special character '' @ char @
           '' cannot be used as a replacement character.'' @ [CHR 0x0A] @
           ''Allowed replacement characters include -._0-9a-zA-Z'')), st)) \<and>
   (length char = 1 \<and> \<not> EXCLUDED_CHARS (hd char) \<and>
    (\<exists>p \<in> set files. \<not> os_path_exists (tree st) p) \<longrightarrow>
      (\<exists>missing \<in> set files. \<not> os_path_exists (tree st) missing \<and>
         find (\<lambda>p. \<not> os_path_exists (tree st) p) files = Some missing \<and>
         fst (rename_file st char files recursive verbose False) =
           Raised (FileNotFoundError missing)) \<and>
      tree (snd (rename_file st char files recursive verbose False)) = tree st \<and>
      stdout (snd (rename_file st char files recursive verbose False)) = stdout st \<and>
      (\<exists>k. calls (snd (rename_file st char files recursive verbose False)) =
             calls st @ map Realpath files @ map Exists (take k files)))"
proof (intro conjI impI)
  assume "length char \<noteq> 1"
  then show "rename_file st char files recursive verbose False =
        (Raised (ValueError (char @ '' must be a single character.'')), st)"
    by (simp add: rename_file_def)
next
  assume "length char = 1 \<and> EXCLUDED_CHARS (hd char)"
  then show "rename_file st char files recursive verbose False =
        (Raised (ValueError (''Special character '' @ char @
           '' cannot be used as a replacement character.'' @ [CHR 0x0A] @
           ''Allowed replacement characters include -._0-9a-zA-Z'')), st)"
    by (simp add: rename_file_def)
next
  assume a: "length char = 1 \<and> \<not> EXCLUDED_CHARS (hd char) \<and>
    (\<exists>p \<in> set files. \<not> os_path_exists (tree st) p)"
  then obtain missing where m: "find (\<lambda>p. \<not> os_path_exists (tree st) p) files = Some missing"
    "missing \<in> set files" "\<not> os_path_exists (tree st) missing"
    using find_missing [of files "tree st"] by blast
  from a have l: "length char = 1" and x: "\<not> EXCLUDED_CHARS (hd char)" by simp_all
  note r = rename_file_missing [OF l x m(1), of recursive verbose False]
  from r(1) m
  show "\<exists>missing \<in> set files. \<not> os_path_exists (tree st) missing \<and>
         find (\<lambda>p. \<not> os_path_exists (tree st) p) files = Some missing \<and>
         fst (rename_file st char files recursive verbose False) =
           Raised (FileNotFoundError missing)"
    by auto
  show "tree (snd (rename_file st char files recursive verbose False)) = tree st"
    by (simp add: r(2))
  show "stdout (snd (rename_file st char files recursive verbose False)) = stdout st"
    by (simp add: r(2))
  from check_exists_calls [of "fold (\<lambda>file. called (Realpath file)) files st" files]
  show "\<exists>k. calls (snd (rename_file st char files recursive verbose False)) =
             calls st @ map Realpath files @ map Exists (take k files)"
    by (simp add: r(2))
qed















theorem validation_errors_before_any_rename_witness:
  "length ''__'' \<noteq> 1 \<and>
   rename_file example_state ''__'' [[''home'', ''a 1.txt'']] True True False =
     (Raised (ValueError ''__ must be a single character.''), example_state) \<and>
   length ''*'' = 1 \<and> EXCLUDED_CHARS (hd ''*'') \<and>
   fst (rename_file example_state ''*'' [[''home'', ''a 1.txt'']] True True False) =
     Raised (ValueError (''Special character * cannot be used as a replacement character.'' @
       [CHR 0x0A] @ ''Allowed replacement characters include -._0-9a-zA-Z'')) \<and>
   snd (rename_file example_state ''*'' [[''home'', ''a 1.txt'']] True True False) = example_state \<and>
   length ''_'' = 1 \<and> \<not> EXCLUDED_CHARS (hd ''_'') \<and>
   [''home'', ''nope''] \<in> set [[''home'', ''my file (2023).txt''], [''home'', ''nope'']] \<and>
   \<not> os_path_exists (tree example_state) [''home'', ''nope''] \<and>
   fst (rename_file example_state ''_'' [[''home'', ''my file (2023).txt''], [''home'', ''nope'']]
          True True False) = Raised (FileNotFoundError [''home'', ''nope'']) \<and>
   tree (snd (rename_file example_state ''_'' [[''home'', ''my file (2023).txt''], [''home'', ''nope'']]
          True True False)) = tree example_state \<and>
   stdout (snd (rename_file example_state ''_'' [[''home'', ''my file (2023).txt''], [''home'', ''nope'']]
          True True False)) = []"
proof -
  have x: "EXCLUDED_CHARS (hd ''*'')" "\<not> EXCLUDED_CHARS (hd ''_'')"
    by (simp_all add: EXCLUDED_CHARS_def)
  have m: "\<exists>p \<in> set [[''home'', ''my file (2023).txt''], [''home'', ''nope'']].
      \<not> os_path_exists (tree example_state) p"
    by (simp add: tree_eval)
  have n: "\<not> os_path_exists (tree example_state) [''home'', ''nope'']"
    by (simp add: tree_eval)
  have f: "find (\<lambda>p. \<not> os_path_exists (tree example_state) p)
             [[''home'', ''my file (2023).txt''], [''home'', ''nope'']] = Some [''home'', ''nope'']"
    by (simp add: tree_eval)
  have o: "stdout example_state = []"
    by (simp add: example_state_def)
  from validation_errors_before_any_rename
         [of "''__''" example_state "[[''home'', ''a 1.txt'']]" True True]
       validation_errors_before_any_rename
         [of "''*''" example_state "[[''home'', ''a 1.txt'']]" True True]
       validation_errors_before_any_rename
         [of "''_''" example_state "[[''home'', ''my file (2023).txt''], [''home'', ''nope'']]" True True]
       x m n f o
  show ?thesis by auto
qed



end
